theory Spec2Isabelle
  imports Main "HOL-Library.Monad_Syntax" "HOL-Library.AList"
begin

section \<open>The content transform: \<open>clean_css_content\<close>\<close>

text \<open>
  Python strings are sequences of Unicode code points, so CSS text is a list of code points.
  \<open>cp\<close> turns an ASCII literal into such a text.
\<close>

type_synonym ustr = "nat list"

definition cp :: "string \<Rightarrow> ustr" where
  "cp s = map of_char s"

text \<open>
  The class \<open>\s\<close> of a \<open>str\<close> pattern: the characters for which \<open>str.isspace\<close> holds
  (TAB..CR, FS..US, SPACE, NEL, NBSP, U+1680, U+2000..U+200A, U+2028, U+2029, U+202F, U+205F,
  U+3000).
\<close>

definition is_space :: "nat \<Rightarrow> bool" where
  "is_space c \<longleftrightarrow> (9 \<le> c \<and> c \<le> 13) \<or> (28 \<le> c \<and> c \<le> 32) \<or> c = 133 \<or> c = 160
     \<or> c = 5760 \<or> (8192 \<le> c \<and> c \<le> 8202) \<or> c = 8232 \<or> c = 8233 \<or> c = 8239
     \<or> c = 8287 \<or> c = 12288"

text \<open>
  A literal pattern character \<open>p\<close> under \<open>re.IGNORECASE\<close>: the pattern is written in lower
  case, so a letter also matches its capital, and the letters i, s and k match the four
  non-ASCII characters that case-fold to them (U+0130, U+0131, U+017F, U+212A). Punctuation
  matches itself only.
\<close>

definition ci_eq :: "nat \<Rightarrow> nat \<Rightarrow> bool" where
  "ci_eq p c \<longleftrightarrow> c = p \<or> (97 \<le> p \<and> p \<le> 122 \<and> c + 32 = p)
     \<or> (p = 105 \<and> (c = 304 \<or> c = 305)) \<or> (p = 115 \<and> c = 383) \<or> (p = 107 \<and> c = 8490)"

text \<open>
  The pieces of the pattern. Each takes the text still to be matched and returns what is left
  after the piece, or \<open>None\<close> when the piece does not match there: \<open>lit\<close> is a literal word,
  \<open>spaces\<close> is the greedy \<open>\s*\<close>, \<open>not_semicolons\<close> is the greedy \<open>[^;]*\<close>.
\<close>

fun lit :: "ustr \<Rightarrow> ustr \<Rightarrow> ustr option" where
  "lit [] s = Some s"
| "lit (p # ps) [] = None"
| "lit (p # ps) (c # s) = (if ci_eq p c then lit ps s else None)"

definition spaces :: "ustr \<Rightarrow> ustr option" where
  "spaces s = Some (dropWhile is_space s)"

definition not_semicolons :: "ustr \<Rightarrow> ustr option" where
  "not_semicolons s = Some (dropWhile (\<lambda>c. c \<noteq> 59) s)"

definition properties :: "ustr list" where
  "properties = map cp [''text-indent'', ''line-height'', ''font-size'', ''height'',
     ''font-family'', ''color'']"

text \<open>The first branch for one property name \<open>p\<close>: \<open>p\s*:\s*[^;]*;\<close>.\<close>

definition property_declaration :: "ustr \<Rightarrow> ustr \<Rightarrow> ustr option" where
  "property_declaration p s = lit p s \<bind> spaces \<bind> lit (cp '':'') \<bind> spaces
     \<bind> not_semicolons \<bind> lit (cp '';'')"

text \<open>The group of property names: the alternatives are tried from left to right.\<close>

fun alternatives :: "ustr list \<Rightarrow> ustr \<Rightarrow> ustr option" where
  "alternatives [] s = None"
| "alternatives (p # ps) s =
     (case property_declaration p s of Some r \<Rightarrow> Some r | None \<Rightarrow> alternatives ps s)"

text \<open>The second branch: \<open>display\s*:\s*block\s*;\<close>.\<close>

definition display_block :: "ustr \<Rightarrow> ustr option" where
  "display_block s = lit (cp ''display'') s \<bind> spaces \<bind> lit (cp '':'') \<bind> spaces
     \<bind> lit (cp ''block'') \<bind> spaces \<bind> lit (cp '';'')"

text \<open>
  \<open>CSS_REMOVE_PATTERN\<close> matched at the start of a text: what follows the match, or \<open>None\<close>.
\<close>

definition CSS_REMOVE_PATTERN :: "ustr \<Rightarrow> ustr option" where
  "CSS_REMOVE_PATTERN s =
     (case alternatives properties s of Some r \<Rightarrow> Some r | None \<Rightarrow> display_block s)"

text \<open>
  \<open>CSS_REMOVE_PATTERN.sub('', css_content)\<close>: scanning from the left, a match is dropped and
  the scan goes on behind it; a character at which nothing matches is kept.
\<close>

function clean_css_content :: "ustr \<Rightarrow> ustr" where
  "clean_css_content [] = []"
| "clean_css_content (c # s) =
     (case CSS_REMOVE_PATTERN (c # s) of
        Some r \<Rightarrow> clean_css_content r
      | None \<Rightarrow> c # clean_css_content s)"
  by pat_completeness auto

subsection \<open>What the pattern denotes\<close>

text \<open>
  The language of the pattern, written out from the regular expression and independently of
  the matcher above: a match is a property name, blanks, a colon, and everything up to and
  including the next semicolon; or \<open>display\<close>, blanks, a colon, blanks, \<open>block\<close>, blanks and a
  semicolon. Names are compared without regard to case.
\<close>

definition ci_word :: "ustr \<Rightarrow> ustr \<Rightarrow> bool" where
  "ci_word p w \<longleftrightarrow> list_all2 ci_eq p w"

definition blank :: "ustr \<Rightarrow> bool" where
  "blank w \<longleftrightarrow> (\<forall>c \<in> set w. is_space c)"

definition is_declaration :: "ustr \<Rightarrow> bool" where
  "is_declaration m \<longleftrightarrow> (\<exists>p w ws1 ws2 body. p \<in> set properties \<and> ci_word p w \<and> blank ws1
      \<and> blank ws2 \<and> 59 \<notin> set body \<and> m = w @ ws1 @ [58] @ ws2 @ body @ [59])"

definition is_display_block :: "ustr \<Rightarrow> bool" where
  "is_display_block m \<longleftrightarrow> (\<exists>w1 ws1 ws2 w2 ws3. ci_word (cp ''display'') w1 \<and> blank ws1
      \<and> blank ws2 \<and> ci_word (cp ''block'') w2 \<and> blank ws3
      \<and> m = w1 @ ws1 @ [58] @ ws2 @ w2 @ ws3 @ [59])"

definition is_match :: "ustr \<Rightarrow> bool" where
  "is_match m \<longleftrightarrow> is_declaration m \<or> is_display_block m"

text \<open>The pattern has a match that starts at position \<open>i\<close> of \<open>s\<close>.\<close>

definition match_at :: "ustr \<Rightarrow> nat \<Rightarrow> bool" where
  "match_at s i \<longleftrightarrow> (\<exists>m r. is_match m \<and> drop i s = m @ r)"

text \<open>
  \<open>matches_deleted s out\<close>: \<open>out\<close> is \<open>s\<close> with every non-overlapping match deleted, the matches
  being found from left to right as \<open>re.sub\<close> finds them: the leftmost match \<open>m\<close> is cut out and
  the search resumes behind it.
\<close>

inductive matches_deleted :: "ustr \<Rightarrow> ustr \<Rightarrow> bool" where
  no_match: "(\<forall>i. \<not> match_at s i) \<Longrightarrow> matches_deleted s s"
| leftmost: "is_match m \<Longrightarrow> (\<forall>i < length pre. \<not> match_at (pre @ m @ rest) i)
     \<Longrightarrow> matches_deleted rest out \<Longrightarrow> matches_deleted (pre @ m @ rest) (pre @ out)"

definition word_char :: "nat \<Rightarrow> bool" where
  "word_char p \<longleftrightarrow> (97 \<le> p \<and> p \<le> 122) \<or> p = 45"

section \<open>The container pipeline: \<open>process_epub_inplace\<close>\<close>

subsection \<open>Archives and the scratch tree\<close>

text \<open>
  File contents are byte strings. A member of a ZIP archive is a regular file (name, content,
  compression method) or a directory; its name is taken as \<open>zipfile\<close> uses it when extracting,
  split at the slashes into its components. What is stored at a path of the disk is either
  something \<open>zipfile\<close> rejects (\<open>Blob\<close>) or an archive, given by its members in order.
\<close>

type_synonym bytes = string
type_synonym relpath = "string list"

datatype compress_type = ZIP_STORED | ZIP_DEFLATED

datatype zip_entry = FileEntry relpath bytes compress_type | DirEntry relpath

datatype file_data = Blob bytes | ZipArchive "zip_entry list"

text \<open>
  A directory of the scratch tree, as \<open>os.walk\<close> reports it: its regular files and its
  subdirectories, each in listing order. Listing order is the order of creation.
\<close>

datatype dir = Dir (files_of: "(string \<times> bytes) list") (subdirs: "(string \<times> dir) list")

definition subdir :: "string \<Rightarrow> (string \<times> dir) list \<Rightarrow> dir" where
  "subdir n ds = (case map_of ds n of None \<Rightarrow> Dir [] [] | Some d \<Rightarrow> d)"

text \<open>
  Extracting one member below the scratch root. Missing parent directories are created; a
  regular file replaces an older regular file of the same name. The member cannot be written,
  and the extraction raises, when its name is empty, when a parent is a regular file, or when
  a file is to be written where a directory is (and a directory where a file is).
\<close>

fun put_file :: "relpath \<Rightarrow> bytes \<Rightarrow> dir \<Rightarrow> dir option" where
  "put_file [] b d = None"
| "put_file [n] b (Dir fs ds) =
     (if map_of ds n \<noteq> None then None else Some (Dir (AList.update n b fs) ds))"
| "put_file (n # p) b (Dir fs ds) =
     (if map_of fs n \<noteq> None then None
      else case put_file p b (subdir n ds) of
             None \<Rightarrow> None
           | Some d \<Rightarrow> Some (Dir fs (AList.update n d ds)))"

fun makedirs :: "relpath \<Rightarrow> dir \<Rightarrow> dir option" where
  "makedirs [] d = Some d"
| "makedirs (n # p) (Dir fs ds) =
     (if map_of fs n \<noteq> None then None
      else case makedirs p (subdir n ds) of
             None \<Rightarrow> None
           | Some d \<Rightarrow> Some (Dir fs (AList.update n d ds)))"

fun extract_member :: "zip_entry \<Rightarrow> dir \<Rightarrow> dir option" where
  "extract_member (FileEntry p b c) d = put_file p b d"
| "extract_member (DirEntry p) d = makedirs p d"

text \<open>
  \<open>zip_ref.extractall(temp_dir)\<close>: the members in archive order. The first argument is the
  index of the member at which the environment makes the extraction raise (disk full, a
  damaged member), if it does. The result says whether the extraction went through, and gives
  the tree as far as it was written.
\<close>

fun extractall :: "nat option \<Rightarrow> zip_entry list \<Rightarrow> dir \<Rightarrow> bool \<times> dir" where
  "extractall k [] d = (True, d)"
| "extractall k (e # es) d =
     (if k = Some 0 then (False, d)
      else case extract_member e d of
             None \<Rightarrow> (False, d)
           | Some d' \<Rightarrow> extractall (map_option (\<lambda>n. n - 1) k) es d')"

text \<open>
  \<open>os.walk\<close>, top down: the regular files of a directory, then its subdirectories in turn.
  \<open>walk_files root t\<close> lists every regular file below \<open>t\<close> with its path, \<open>root\<close> being the
  path of \<open>t\<close> relative to the scratch root.
\<close>

fun walk_files :: "relpath \<Rightarrow> dir \<Rightarrow> (relpath \<times> bytes) list"
  and walk_subdirs :: "relpath \<Rightarrow> (string \<times> dir) list \<Rightarrow> (relpath \<times> bytes) list" where
  "walk_files root (Dir fs ds) = map (\<lambda>(name, b). (root @ [name], b)) fs @ walk_subdirs root ds"
| "walk_subdirs root [] = []"
| "walk_subdirs root ((n, d) # ds) = walk_files (root @ [n]) d @ walk_subdirs root ds"

subsection \<open>The environment\<close>

text \<open>
  Reading a CSS file decodes its bytes (UTF-8, undecodable bytes dropped) and writing encodes
  the text; both belong to the platform and are parameters here.
\<close>

record platform =
  decode :: "bytes \<Rightarrow> ustr"
  encode :: "ustr \<Rightarrow> bytes"

text \<open>
  What the operating system does during one call: the name \<open>mkdtemp\<close> picks (or \<open>None\<close> when
  it raises), the hexadecimal name \<open>uuid4\<close> gives, and which of the calls raise. A failing
  write leaves some content in the file, which the environment chooses. Repacking can fail on
  opening the output or after a number of members have been written. \<open>os.remove\<close> is called at
  three places of the code (in the handler of the failing step, in the outer handler, in the
  \<open>finally\<close> clause), numbered 0, 1 and 2.
\<close>

datatype pack_fault = NoPackFault | OpenRaises | WriteRaises nat

record env =
  mkdtemp :: "string option"
  extract_raises_at :: "nat option"
  read_raises :: "relpath \<Rightarrow> bool"
  write_raises :: "relpath \<Rightarrow> bytes option"
  uuid4 :: string
  pack_raises :: pack_fault
  move_raises :: bool
  remove_raises :: "nat \<Rightarrow> bool"
  rmtree_raises :: bool

text \<open>
  The disk: the regular files by path, and the directories made by \<open>mkdtemp\<close> by path, each
  with the tree below it.
\<close>

record world =
  file_at :: "string \<rightharpoonup> file_data"
  tmpdir_at :: "string \<rightharpoonup> dir"

subsection \<open>Step 3: cleaning the CSS files of the scratch tree\<close>

record walk_state =
  css_files_found :: bool
  modified :: bool

definition lower :: "string \<Rightarrow> string" where
  "lower s = map (\<lambda>c. if 65 \<le> (of_char c :: nat) \<and> (of_char c :: nat) \<le> 90
                        then char_of (of_char c + (32 :: nat)) else c) s"

definition endswith :: "string \<Rightarrow> string \<Rightarrow> bool" where
  "endswith s suffix \<longleftrightarrow> drop (length s - length suffix) s = suffix"

text \<open>
  The body of the inner loop for one file of the directory \<open>root\<close>. A read that raises skips
  the file (\<open>continue\<close>); a write that raises is reported and the loop goes on, \<open>modified\<close>
  staying as it was.
\<close>

definition css_file ::
  "(ustr \<Rightarrow> ustr) \<Rightarrow> platform \<Rightarrow> env \<Rightarrow> relpath \<Rightarrow> string \<times> bytes \<Rightarrow> walk_state
     \<Rightarrow> (string \<times> bytes) \<times> walk_state" where
  "css_file transform pf ev root entry st =
     (let name = fst entry; content = snd entry in
      if endswith (lower name) ''.css'' then
        let st1 = st\<lparr>css_files_found := True\<rparr>;
            css_file_path = root @ [name]
        in if read_raises ev css_file_path then (entry, st1)
           else
             let original_content = decode pf content;
                 cleaned_content = transform original_content
             in if cleaned_content \<noteq> original_content then
                  (case write_raises ev css_file_path of
                     None \<Rightarrow> ((name, encode pf cleaned_content), st1\<lparr>modified := True\<rparr>)
                   | Some left \<Rightarrow> ((name, left), st1))
                else (entry, st1)
      else (entry, st))"

fun css_files ::
  "(ustr \<Rightarrow> ustr) \<Rightarrow> platform \<Rightarrow> env \<Rightarrow> relpath \<Rightarrow> (string \<times> bytes) list \<Rightarrow> walk_state
     \<Rightarrow> (string \<times> bytes) list \<times> walk_state" where
  "css_files transform pf ev root [] st = ([], st)"
| "css_files transform pf ev root (entry # entries) st =
     (let (entry', st1) = css_file transform pf ev root entry st;
          (entries', st2) = css_files transform pf ev root entries st1
      in (entry' # entries', st2))"

fun walk_css ::
  "(ustr \<Rightarrow> ustr) \<Rightarrow> platform \<Rightarrow> env \<Rightarrow> relpath \<Rightarrow> dir \<Rightarrow> walk_state \<Rightarrow> dir \<times> walk_state"
  and walk_css_subdirs ::
  "(ustr \<Rightarrow> ustr) \<Rightarrow> platform \<Rightarrow> env \<Rightarrow> relpath \<Rightarrow> (string \<times> dir) list \<Rightarrow> walk_state
     \<Rightarrow> (string \<times> dir) list \<times> walk_state" where
  "walk_css transform pf ev root (Dir fs ds) st =
     (let (fs', st1) = css_files transform pf ev root fs st;
          (ds', st2) = walk_css_subdirs transform pf ev root ds st1
      in (Dir fs' ds', st2))"
| "walk_css_subdirs transform pf ev root [] st = ([], st)"
| "walk_css_subdirs transform pf ev root ((n, d) # ds) st =
     (let (d', st1) = walk_css transform pf ev (root @ [n]) d st;
          (ds', st2) = walk_css_subdirs transform pf ev root ds st1
      in ((n, d') # ds', st2))"

subsection \<open>Step 5: repacking\<close>

text \<open>\<open>files.remove('mimetype')\<close>: the first occurrence of the name leaves the listing.\<close>

fun remove_file :: "string \<Rightarrow> (string \<times> bytes) list \<Rightarrow> (string \<times> bytes) list" where
  "remove_file n [] = []"
| "remove_file n ((name, b) # entries) =
     (if name = n then entries else (name, b) # remove_file n entries)"

text \<open>
  What is written before the walk: \<open>mimetype\<close>, stored, when a path of that name exists at the
  scratch root. \<open>os.path.exists\<close> also holds for a directory, which \<open>ZipFile.write\<close> records as
  a directory member.
\<close>

definition mimetype_first :: "dir \<Rightarrow> zip_entry list" where
  "mimetype_first t =
     (case map_of (files_of t) ''mimetype'' of
        Some b \<Rightarrow> [FileEntry [''mimetype''] b ZIP_STORED]
      | None \<Rightarrow> (if map_of (subdirs t) ''mimetype'' \<noteq> None then [DirEntry [''mimetype'']] else []))"

definition pack_entries :: "dir \<Rightarrow> zip_entry list" where
  "pack_entries t =
     mimetype_first t @
     map (\<lambda>(arcname, b). FileEntry arcname b ZIP_DEFLATED)
       (walk_files [] (Dir (remove_file ''mimetype'' (files_of t)) (subdirs t)))"

definition repack :: "env \<Rightarrow> string \<Rightarrow> dir \<Rightarrow> world \<Rightarrow> bool \<times> world" where
  "repack ev tmp t w =
     (case pack_raises ev of
        NoPackFault \<Rightarrow> (True, w\<lparr>file_at := (file_at w)(tmp \<mapsto> ZipArchive (pack_entries t))\<rparr>)
      | OpenRaises \<Rightarrow> (False, w)
      | WriteRaises k \<Rightarrow>
          (False, w\<lparr>file_at := (file_at w)(tmp \<mapsto> ZipArchive (take k (pack_entries t)))\<rparr>))"

subsection \<open>The transaction\<close>

text \<open>
  A block of the function either returns a value or lets an exception escape to the outer
  handler. The two local variables that the handlers and the \<open>finally\<close> clause read are kept in
  a record.
\<close>

datatype 'a outcome = Returned 'a | Raised

record locals =
  temp_dir :: "string option"
  temp_output_epub_path :: "string option"

definition os_remove :: "env \<Rightarrow> nat \<Rightarrow> string \<Rightarrow> world \<Rightarrow> world option" where
  "os_remove ev site path w =
     (if remove_raises ev site then None else Some (w\<lparr>file_at := (file_at w)(path := None)\<rparr>))"

text \<open>
  The handlers of steps 5 and 6: remove the temporary archive if it exists, return \<open>False\<close>.
  The removal is not guarded there, so an error of \<open>os.remove\<close> escapes.
\<close>

definition discard_and_fail :: "env \<Rightarrow> string \<Rightarrow> world \<Rightarrow> bool outcome \<times> world" where
  "discard_and_fail ev tmp w =
     (if file_at w tmp \<noteq> None then
        (case os_remove ev 0 tmp w of
           None \<Rightarrow> (Raised, w)
         | Some w' \<Rightarrow> (Returned False, w'))
      else (Returned False, w))"

text \<open>
  Step 6, \<open>shutil.move\<close>: a rename within one directory, which either puts the temporary
  archive in the place of the original or raises and changes nothing.
\<close>

definition replace_original ::
  "env \<Rightarrow> string \<Rightarrow> string \<Rightarrow> locals \<Rightarrow> world \<Rightarrow> bool outcome \<times> locals \<times> world" where
  "replace_original ev epub_path tmp loc w =
     (if move_raises ev \<or> file_at w tmp = None then
        (let (out, w') = discard_and_fail ev tmp w in (out, loc, w'))
      else
        (Returned True, loc\<lparr>temp_output_epub_path := None\<rparr>,
         w\<lparr>file_at := (file_at w)(epub_path := file_at w tmp, tmp := None)\<rparr>))"

text \<open>
  The body of the outer \<open>try\<close>, with the transform as a parameter. \<open>mkdtemp\<close> makes a
  directory that did not exist; a name that is taken counts as its failure.
\<close>

definition try_body ::
  "(ustr \<Rightarrow> ustr) \<Rightarrow> platform \<Rightarrow> env \<Rightarrow> string \<Rightarrow> world \<Rightarrow> bool outcome \<times> locals \<times> world" where
  "try_body transform pf ev epub_path w =
     (let loc0 = \<lparr>temp_dir = None, temp_output_epub_path = None\<rparr> in
      case mkdtemp ev of
        None \<Rightarrow> (Raised, loc0, w)
      | Some d \<Rightarrow>
          if tmpdir_at w d \<noteq> None then (Raised, loc0, w)
          else
            let loc = loc0\<lparr>temp_dir := Some d\<rparr>;
                w1 = w\<lparr>tmpdir_at := (tmpdir_at w)(d \<mapsto> Dir [] [])\<rparr>
            in case file_at w1 epub_path of
                 None \<Rightarrow> (Returned False, loc, w1)
               | Some (Blob raw) \<Rightarrow> (Returned False, loc, w1)
               | Some (ZipArchive members) \<Rightarrow>
                   let (extracted, t) = extractall (extract_raises_at ev) members (Dir [] []) in
                   if \<not> extracted
                   then (Returned False, loc, w1\<lparr>tmpdir_at := (tmpdir_at w1)(d \<mapsto> t)\<rparr>)
                   else
                     let (t', st) = walk_css transform pf ev [] t
                                      \<lparr>css_files_found = False, modified = False\<rparr>;
                         w2 = w1\<lparr>tmpdir_at := (tmpdir_at w1)(d \<mapsto> t')\<rparr>
                     in if \<not> css_files_found st then (Returned True, loc, w2)
                        else if \<not> modified st then (Returned True, loc, w2)
                        else
                          let tmp = epub_path @ ''.'' @ uuid4 ev @ ''.tmpzip'';
                              loc' = loc\<lparr>temp_output_epub_path := Some tmp\<rparr>;
                              (packed, w3) = repack ev tmp t' w2
                          in if \<not> packed
                             then (let (out, w4) = discard_and_fail ev tmp w3 in (out, loc', w4))
                             else replace_original ev epub_path tmp loc' w3)"

text \<open>The outer \<open>except Exception\<close> and the \<open>finally\<close> clause; both swallow \<open>OSError\<close>.\<close>

definition except_handler :: "env \<Rightarrow> locals \<Rightarrow> world \<Rightarrow> world" where
  "except_handler ev loc w =
     (case temp_output_epub_path loc of
        None \<Rightarrow> w
      | Some tmp \<Rightarrow>
          if file_at w tmp \<noteq> None then
            (case os_remove ev 1 tmp w of None \<Rightarrow> w | Some w' \<Rightarrow> w')
          else w)"

definition finally_clause :: "env \<Rightarrow> locals \<Rightarrow> world \<Rightarrow> world" where
  "finally_clause ev loc w =
     (let w1 = (case temp_dir loc of
                  None \<Rightarrow> w
                | Some d \<Rightarrow>
                    if tmpdir_at w d \<noteq> None \<and> \<not> rmtree_raises ev
                    then w\<lparr>tmpdir_at := (tmpdir_at w)(d := None)\<rparr> else w)
      in case temp_output_epub_path loc of
           None \<Rightarrow> w1
         | Some tmp \<Rightarrow>
             if file_at w1 tmp \<noteq> None then
               (case os_remove ev 2 tmp w1 of None \<Rightarrow> w1 | Some w' \<Rightarrow> w')
             else w1)"

definition transaction ::
  "(ustr \<Rightarrow> ustr) \<Rightarrow> platform \<Rightarrow> env \<Rightarrow> string \<Rightarrow> world \<Rightarrow> bool \<times> world" where
  "transaction transform pf ev epub_path w =
     (case try_body transform pf ev epub_path w of
        (Returned result, loc, w1) \<Rightarrow> (result, finally_clause ev loc w1)
      | (Raised, loc, w1) \<Rightarrow> (False, finally_clause ev loc (except_handler ev loc w1)))"

text \<open>The function of the source: the transaction with \<open>clean_css_content\<close>.\<close>

definition process_epub_inplace :: "platform \<Rightarrow> env \<Rightarrow> string \<Rightarrow> world \<Rightarrow> bool \<times> world" where
  "process_epub_inplace = transaction clean_css_content"

subsection \<open>Notions used to state the properties\<close>

text \<open>
  The walk in terms of the files it visits: \<open>selected\<close> is the test of the file name,
  \<open>rewritten\<close> says that step 3 writes the file back, \<open>content_after\<close> is the file after the
  step, and \<open>seen\<close> is the effect of a sequence of files on the two flags.
\<close>

definition selected :: "relpath \<Rightarrow> bool" where
  "selected q \<longleftrightarrow> q \<noteq> [] \<and> endswith (lower (last q)) ''.css''"

definition rewritten :: "(ustr \<Rightarrow> ustr) \<Rightarrow> platform \<Rightarrow> env \<Rightarrow> relpath \<times> bytes \<Rightarrow> bool" where
  "rewritten transform pf ev f \<longleftrightarrow> selected (fst f) \<and> \<not> read_raises ev (fst f)
     \<and> transform (decode pf (snd f)) \<noteq> decode pf (snd f) \<and> write_raises ev (fst f) = None"

definition content_after ::
  "(ustr \<Rightarrow> ustr) \<Rightarrow> platform \<Rightarrow> env \<Rightarrow> relpath \<times> bytes \<Rightarrow> relpath \<times> bytes" where
  "content_after transform pf ev f =
     (if selected (fst f) \<and> \<not> read_raises ev (fst f)
         \<and> transform (decode pf (snd f)) \<noteq> decode pf (snd f)
      then (case write_raises ev (fst f) of
              None \<Rightarrow> (fst f, encode pf (transform (decode pf (snd f))))
            | Some left \<Rightarrow> (fst f, left))
      else f)"

definition seen ::
  "(ustr \<Rightarrow> ustr) \<Rightarrow> platform \<Rightarrow> env \<Rightarrow> (relpath \<times> bytes) list \<Rightarrow> walk_state \<Rightarrow> walk_state" where
  "seen transform pf ev fs st =
     \<lparr>css_files_found = (css_files_found st \<or> (\<exists>f \<in> set fs. selected (fst f))),
      modified = (modified st \<or> (\<exists>f \<in> set fs. rewritten transform pf ev f))\<rparr>"

text \<open>The regular files of an archive, by name, and the name of the temporary archive.\<close>

definition file_members :: "zip_entry list \<Rightarrow> (relpath \<times> bytes) set" where
  "file_members es = {(q, b). \<exists>c. FileEntry q b c \<in> set es}"

definition temp_name :: "env \<Rightarrow> string \<Rightarrow> string" where
  "temp_name ev epub_path = epub_path @ ''.'' @ uuid4 ev @ ''.tmpzip''"

text \<open>The flags before the walk, and the local variables once the scratch directory exists.\<close>

definition init_state :: walk_state where
  "init_state = \<lparr>css_files_found = False, modified = False\<rparr>"

definition scratch_loc :: "string \<Rightarrow> locals" where
  "scratch_loc d = \<lparr>temp_dir = Some d, temp_output_epub_path = None\<rparr>"

text \<open>
  \<open>walked transform pf ev p w t st\<close>: the call reaches the end of step 3, with the scratch
  tree \<open>t\<close> and the flags \<open>st\<close>: the source is an archive, its extraction goes through, and
  the walk over the extracted tree gives \<open>t\<close> and \<open>st\<close>.
\<close>

definition walked ::
  "(ustr \<Rightarrow> ustr) \<Rightarrow> platform \<Rightarrow> env \<Rightarrow> string \<Rightarrow> world \<Rightarrow> dir \<Rightarrow> walk_state \<Rightarrow> bool" where
  "walked transform pf ev p w t st \<longleftrightarrow>
     (\<exists>es t0. file_at w p = Some (ZipArchive es)
        \<and> extractall (extract_raises_at ev) es (Dir [] []) = (True, t0)
        \<and> walk_css transform pf ev [] t0 init_state = (t, st))"

subsection \<open>Example data\<close>

text \<open>
  A platform whose codec agrees with UTF-8 on ASCII text, an environment in which nothing
  raises, and a small book with a style sheet that step 3 changes.
\<close>

definition ascii :: platform where
  "ascii = \<lparr>decode = map of_char, encode = map char_of\<rparr>"

definition quiet :: env where
  "quiet = \<lparr>mkdtemp = Some ''/tmp/tmpk3'', extract_raises_at = None, read_raises = (\<lambda>_. False),
     write_raises = (\<lambda>_. None), uuid4 = ''0f1e'', pack_raises = NoPackFault, move_raises = False,
     remove_raises = (\<lambda>_. False), rmtree_raises = False\<rparr>"

definition book :: "zip_entry list" where
  "book = [FileEntry [''content.opf''] ''<package/>'' ZIP_DEFLATED,
           FileEntry [''mimetype''] ''application/epub+zip'' ZIP_STORED,
           FileEntry [''style'', ''a.css''] ''p{color:red;}'' ZIP_DEFLATED]"

definition shelf :: world where
  "shelf = \<lparr>file_at = [''book.epub'' \<mapsto> ZipArchive book], tmpdir_at = Map.empty\<rparr>"

definition book_tree :: dir where
  "book_tree = Dir [(''content.opf'', ''<package/>''), (''mimetype'', ''application/epub+zip'')]
                   [(''style'', Dir [(''a.css'', ''p{color:red;}'')] [])]"

definition cleaned_tree :: dir where
  "cleaned_tree = Dir [(''content.opf'', ''<package/>''), (''mimetype'', ''application/epub+zip'')]
                      [(''style'', Dir [(''a.css'', ''p{}'')] [])]"

definition cleaned_book :: "zip_entry list" where
  "cleaned_book = [FileEntry [''mimetype''] ''application/epub+zip'' ZIP_STORED,
                   FileEntry [''content.opf''] ''<package/>'' ZIP_DEFLATED,
                   FileEntry [''style'', ''a.css''] ''p{}'' ZIP_DEFLATED]"


definition jammed :: env where
  "jammed = quiet\<lparr>pack_raises := WriteRaises 1, remove_raises := (\<lambda>_. True),
                  rmtree_raises := True\<rparr>"



definition pack_fails :: env where
  "pack_fails = quiet\<lparr>pack_raises := WriteRaises 1\<rparr>"

section \<open>Properties of the content transform\<close>

subsection \<open>The matcher and the language of the pattern agree\<close>

lemma lit_Some_iff: "lit p s = Some r \<longleftrightarrow> (\<exists>w. ci_word p w \<and> s = w @ r)"
  unfolding ci_word_def
proof (induction p s rule: lit.induct)
  case (1 s)
  then show ?case by auto
next
  case (2 p ps)
  then show ?case by (auto simp: list_all2_Cons1)
next
  case (3 p ps c s)
  then show ?case by (auto simp: list_all2_Cons1)
qed

lemma colon_lit: "lit (cp '':'') s = Some r \<longleftrightarrow> s = 58 # r"
  by (cases s) (auto simp: cp_def ci_eq_def)

lemma semicolon_lit: "lit (cp '';'') s = Some r \<longleftrightarrow> s = 59 # r"
  by (cases s) (auto simp: cp_def ci_eq_def)

lemma spaces_Some_iff: "spaces s = Some r \<longleftrightarrow> (\<exists>ws. blank ws \<and> s = ws @ r \<and> (r = [] \<or> \<not> is_space (hd r)))"
proof
  assume "spaces s = Some r"
  then have r: "r = dropWhile is_space s" by (simp add: spaces_def)
  have "blank (takeWhile is_space s)" by (auto simp: blank_def dest: set_takeWhileD)
  moreover have "s = takeWhile is_space s @ r" by (simp add: r)
  moreover have "r = [] \<or> \<not> is_space (hd r)" unfolding r by (metis hd_dropWhile)
  ultimately show "\<exists>ws. blank ws \<and> s = ws @ r \<and> (r = [] \<or> \<not> is_space (hd r))" by blast
next
  assume "\<exists>ws. blank ws \<and> s = ws @ r \<and> (r = [] \<or> \<not> is_space (hd r))"
  then obtain ws where ws: "blank ws" "s = ws @ r" "r = [] \<or> \<not> is_space (hd r)" by blast
  have "dropWhile is_space (ws @ r) = dropWhile is_space r"
    using ws(1) by (simp add: blank_def)
  also have "\<dots> = r" using ws(3) by (cases r) auto
  finally show "spaces s = Some r" by (simp add: spaces_def ws(2))
qed

lemma not_semicolons_Some_iff:
  "not_semicolons s = Some r \<longleftrightarrow> (\<exists>b. 59 \<notin> set b \<and> s = b @ r \<and> (r = [] \<or> hd r = 59))"
proof
  assume "not_semicolons s = Some r"
  then have r: "r = dropWhile (\<lambda>c. c \<noteq> 59) s" by (simp add: not_semicolons_def)
  have "59 \<notin> set (takeWhile (\<lambda>c. c \<noteq> 59) s)" by (auto dest: set_takeWhileD)
  moreover have "s = takeWhile (\<lambda>c. c \<noteq> 59) s @ r" by (simp add: r)
  moreover have "r = [] \<or> hd r = 59" unfolding r using hd_dropWhile[of "\<lambda>c. c \<noteq> 59" s] by blast
  ultimately show "\<exists>b. 59 \<notin> set b \<and> s = b @ r \<and> (r = [] \<or> hd r = 59)" by blast
next
  assume "\<exists>b. 59 \<notin> set b \<and> s = b @ r \<and> (r = [] \<or> hd r = 59)"
  then obtain b where b: "59 \<notin> set b" "s = b @ r" "r = [] \<or> hd r = 59" by blast
  have "dropWhile (\<lambda>c. c \<noteq> 59) (b @ r) = dropWhile (\<lambda>c. c \<noteq> 59) r"
    using b(1) by (intro dropWhile_append2) auto
  also have "\<dots> = r" using b(3) by (cases r) auto
  finally show "not_semicolons s = Some r" by (simp add: not_semicolons_def b(2))
qed


lemma is_space_simps [simp]: "\<not> is_space 58" "\<not> is_space 59"
  by (simp_all add: is_space_def)

lemma spaces_blank_colon: "blank ws \<Longrightarrow> spaces (ws @ 58 # t) = Some (58 # t)"
  by (simp add: spaces_def blank_def)

lemma spaces_blank_semicolon: "blank ws \<Longrightarrow> spaces (ws @ 59 # t) = Some (59 # t)"
  by (simp add: spaces_def blank_def)

lemma spaces_then_not_semicolons:
  assumes "blank ws" "59 \<notin> set body"
  shows "spaces (ws @ body @ 59 # r) \<bind> not_semicolons = Some (59 # r)"
proof -
  have "dropWhile is_space (ws @ body @ 59 # r) = dropWhile is_space (body @ 59 # r)"
    using assms(1) by (simp add: blank_def)
  also have "\<dots> = dropWhile is_space body @ 59 # r"
    by (simp add: dropWhile_append)
  finally have "spaces (ws @ body @ 59 # r) = Some (dropWhile is_space body @ 59 # r)"
    by (simp add: spaces_def)
  moreover have "59 \<notin> set (dropWhile is_space body)"
    using assms(2) by (auto dest: set_dropWhileD)
  then have "not_semicolons (dropWhile is_space body @ 59 # r) = Some (59 # r)"
    by (simp add: not_semicolons_def dropWhile_append)
  ultimately show ?thesis by simp
qed

lemma property_declaration_sound:
  assumes "property_declaration p s = Some r"
  shows "\<exists>w ws1 ws2 body. ci_word p w \<and> blank ws1 \<and> blank ws2 \<and> 59 \<notin> set body
           \<and> s = w @ ws1 @ [58] @ ws2 @ body @ [59] @ r"
proof -
  from assms obtain r1 r2 r3 r4 r5 where steps:
    "lit p s = Some r1" "spaces r1 = Some r2" "lit (cp '':'') r2 = Some r3"
    "spaces r3 = Some r4" "not_semicolons r4 = Some r5" "lit (cp '';'') r5 = Some r"
    unfolding property_declaration_def by (auto simp: bind_eq_Some_conv)
  from steps(1) obtain w where w: "ci_word p w" "s = w @ r1" by (auto simp: lit_Some_iff)
  from steps(2) obtain ws1 where ws1: "blank ws1" "r1 = ws1 @ r2" by (auto simp: spaces_Some_iff)
  from steps(3) have r2: "r2 = 58 # r3" by (simp add: colon_lit)
  from steps(4) obtain ws2 where ws2: "blank ws2" "r3 = ws2 @ r4" by (auto simp: spaces_Some_iff)
  from steps(5) obtain body where body: "59 \<notin> set body" "r4 = body @ r5"
    by (auto simp: not_semicolons_Some_iff)
  from steps(6) have r5: "r5 = 59 # r" by (simp add: semicolon_lit)
  have "s = w @ ws1 @ [58] @ ws2 @ body @ [59] @ r"
    by (simp add: w(2) ws1(2) r2 ws2(2) body(2) r5)
  with w(1) ws1(1) ws2(1) body(1) show ?thesis by blast
qed

lemma property_declaration_complete:
  assumes "ci_word p w" "blank ws1" "blank ws2" "59 \<notin> set body"
  shows "property_declaration p (w @ ws1 @ [58] @ ws2 @ body @ [59] @ r) = Some r"
proof -
  have 1: "lit p (w @ ws1 @ [58] @ ws2 @ body @ [59] @ r) = Some (ws1 @ [58] @ ws2 @ body @ [59] @ r)"
    using assms(1) by (auto simp: lit_Some_iff)
  have 2: "spaces (ws1 @ [58] @ ws2 @ body @ [59] @ r) = Some (58 # ws2 @ body @ [59] @ r)"
    using spaces_blank_colon[OF assms(2)] by simp
  have 3: "lit (cp '':'') (58 # ws2 @ body @ [59] @ r) = Some (ws2 @ body @ [59] @ r)"
    by (simp add: colon_lit)
  have 4: "spaces (ws2 @ body @ [59] @ r) \<bind> not_semicolons = Some (59 # r)"
    using spaces_then_not_semicolons[OF assms(3,4)] by simp
  have 5: "lit (cp '';'') (59 # r) = Some r" by (simp add: semicolon_lit)
  show ?thesis
    unfolding property_declaration_def using 1 2 3 4 5 by (simp add: bind_assoc)
qed


lemma ci_eq_word_char:
  assumes "word_char p" "ci_eq p c"
  shows "\<not> is_space c" "c \<noteq> 58" "c \<noteq> 59"
  using assms by (auto simp: word_char_def ci_eq_def is_space_def)

lemma ci_word_chars:
  assumes "ci_word p w" "\<forall>x \<in> set p. word_char x" "c \<in> set w"
  shows "\<not> is_space c \<and> c \<noteq> 58 \<and> c \<noteq> 59"
proof -
  from assms(3) obtain i where i: "i < length w" "c = w ! i"
    by (auto simp: in_set_conv_nth)
  with assms(1) have "i < length p" "ci_eq (p ! i) c"
    unfolding ci_word_def by (auto simp: list_all2_conv_all_nth)
  then obtain x where "x \<in> set p" "ci_eq x c" using nth_mem by blast
  with assms(2) show ?thesis using ci_eq_word_char by blast
qed

lemma word_chars_display: "\<forall>x \<in> set (cp ''display''). word_char x"
  by (simp add: cp_def word_char_def)

lemma word_chars_block: "\<forall>x \<in> set (cp ''block''). word_char x"
  by (simp add: cp_def word_char_def)

lemma word_chars_properties: "\<forall>p \<in> set properties. \<forall>x \<in> set p. word_char x"
  by (simp add: properties_def cp_def word_char_def)

lemma spaces_blank_word:
  assumes "blank ws" "ci_word p w" "\<forall>x \<in> set p. word_char x" "p \<noteq> []"
  shows "spaces (ws @ w @ t) = Some (w @ t)"
proof -
  from assms(2,4) obtain c w' where w: "w = c # w'"
    unfolding ci_word_def by (cases w) auto
  then have "\<not> is_space c" using ci_word_chars[OF assms(2,3), of c] by simp
  then show ?thesis using assms(1) by (simp add: spaces_def blank_def w)
qed

lemma display_block_sound:
  assumes "display_block s = Some r"
  shows "\<exists>w1 ws1 ws2 w2 ws3. ci_word (cp ''display'') w1 \<and> blank ws1 \<and> blank ws2
           \<and> ci_word (cp ''block'') w2 \<and> blank ws3
           \<and> s = w1 @ ws1 @ [58] @ ws2 @ w2 @ ws3 @ [59] @ r"
proof -
  from assms obtain r1 r2 r3 r4 r5 r6 where steps:
    "lit (cp ''display'') s = Some r1" "spaces r1 = Some r2" "lit (cp '':'') r2 = Some r3"
    "spaces r3 = Some r4" "lit (cp ''block'') r4 = Some r5" "spaces r5 = Some r6"
    "lit (cp '';'') r6 = Some r"
    unfolding display_block_def by (auto simp: bind_eq_Some_conv)
  from steps(1) obtain w1 where w1: "ci_word (cp ''display'') w1" "s = w1 @ r1"
    by (auto simp: lit_Some_iff)
  from steps(2) obtain ws1 where ws1: "blank ws1" "r1 = ws1 @ r2" by (auto simp: spaces_Some_iff)
  from steps(3) have r2: "r2 = 58 # r3" by (simp add: colon_lit)
  from steps(4) obtain ws2 where ws2: "blank ws2" "r3 = ws2 @ r4" by (auto simp: spaces_Some_iff)
  from steps(5) obtain w2 where w2: "ci_word (cp ''block'') w2" "r4 = w2 @ r5"
    by (auto simp: lit_Some_iff)
  from steps(6) obtain ws3 where ws3: "blank ws3" "r5 = ws3 @ r6" by (auto simp: spaces_Some_iff)
  from steps(7) have r6: "r6 = 59 # r" by (simp add: semicolon_lit)
  have "s = w1 @ ws1 @ [58] @ ws2 @ w2 @ ws3 @ [59] @ r"
    by (simp add: w1(2) ws1(2) r2 ws2(2) w2(2) ws3(2) r6)
  with w1(1) ws1(1) ws2(1) w2(1) ws3(1) show ?thesis by blast
qed

lemma display_block_complete:
  assumes "ci_word (cp ''display'') w1" "blank ws1" "blank ws2" "ci_word (cp ''block'') w2"
    "blank ws3"
  shows "display_block (w1 @ ws1 @ [58] @ ws2 @ w2 @ ws3 @ [59] @ r) = Some r"
proof -
  have 1: "lit (cp ''display'') (w1 @ ws1 @ [58] @ ws2 @ w2 @ ws3 @ [59] @ r)
             = Some (ws1 @ [58] @ ws2 @ w2 @ ws3 @ [59] @ r)"
    using assms(1) by (auto simp: lit_Some_iff)
  have 2: "spaces (ws1 @ [58] @ ws2 @ w2 @ ws3 @ [59] @ r) = Some (58 # ws2 @ w2 @ ws3 @ [59] @ r)"
    using spaces_blank_colon[OF assms(2)] by simp
  have 3: "lit (cp '':'') (58 # ws2 @ w2 @ ws3 @ [59] @ r) = Some (ws2 @ w2 @ ws3 @ [59] @ r)"
    by (simp add: colon_lit)
  have "cp ''block'' \<noteq> []" by (simp add: cp_def)
  then have 4: "spaces (ws2 @ w2 @ ws3 @ [59] @ r) = Some (w2 @ ws3 @ [59] @ r)"
    using spaces_blank_word[OF assms(3,4) word_chars_block] by simp
  have 5: "lit (cp ''block'') (w2 @ ws3 @ [59] @ r) = Some (ws3 @ [59] @ r)"
    using assms(4) by (auto simp: lit_Some_iff)
  have 6: "spaces (ws3 @ [59] @ r) = Some (59 # r)"
    using spaces_blank_semicolon[OF assms(5)] by simp
  have 7: "lit (cp '';'') (59 # r) = Some r" by (simp add: semicolon_lit)
  show ?thesis
    unfolding display_block_def using 1 2 3 4 5 6 7 by simp
qed

lemma alternatives_sound:
  "alternatives ps s = Some r \<Longrightarrow> \<exists>p \<in> set ps. property_declaration p s = Some r"
  by (induction ps) (auto split: option.splits)

lemma alternatives_complete:
  "p \<in> set ps \<Longrightarrow> property_declaration p s = Some r \<Longrightarrow> \<exists>r'. alternatives ps s = Some r'"
  by (induction ps) (auto split: option.splits)

lemma CSS_REMOVE_PATTERN_sound:
  assumes "CSS_REMOVE_PATTERN s = Some r"
  shows "\<exists>m. is_match m \<and> s = m @ r"
proof (cases "alternatives properties s")
  case None
  with assms have "display_block s = Some r" by (simp add: CSS_REMOVE_PATTERN_def)
  from display_block_sound[OF this] obtain w1 ws1 ws2 w2 ws3 where
    "ci_word (cp ''display'') w1" "blank ws1" "blank ws2" "ci_word (cp ''block'') w2" "blank ws3"
    "s = (w1 @ ws1 @ [58] @ ws2 @ w2 @ ws3 @ [59]) @ r" by auto
  then have "is_display_block (w1 @ ws1 @ [58] @ ws2 @ w2 @ ws3 @ [59])"
    unfolding is_display_block_def by blast
  then show ?thesis using \<open>s = _\<close> unfolding is_match_def by blast
next
  case (Some r')
  with assms have "alternatives properties s = Some r" by (simp add: CSS_REMOVE_PATTERN_def)
  from alternatives_sound[OF this] obtain p where
    p: "p \<in> set properties" "property_declaration p s = Some r" by blast
  from property_declaration_sound[OF p(2)] obtain w ws1 ws2 body where
    "ci_word p w" "blank ws1" "blank ws2" "59 \<notin> set body"
    "s = (w @ ws1 @ [58] @ ws2 @ body @ [59]) @ r" by auto
  then have "is_declaration (w @ ws1 @ [58] @ ws2 @ body @ [59])"
    unfolding is_declaration_def using p(1) by blast
  then show ?thesis using \<open>s = _\<close> unfolding is_match_def by blast
qed

lemma is_match_one_semicolon:
  assumes "is_match m"
  shows "\<exists>b. m = b @ [59] \<and> 59 \<notin> set b"
  using assms unfolding is_match_def
proof
  assume "is_declaration m"
  then obtain p w ws1 ws2 body where m: "p \<in> set properties" "ci_word p w" "blank ws1"
    "blank ws2" "59 \<notin> set body" "m = w @ ws1 @ [58] @ ws2 @ body @ [59]"
    unfolding is_declaration_def by blast
  have "59 \<notin> set w" using ci_word_chars[OF m(2)] word_chars_properties m(1) by blast
  moreover have "59 \<notin> set ws1" "59 \<notin> set ws2" using m(3,4) by (auto simp: blank_def)
  ultimately have "59 \<notin> set (w @ ws1 @ [58] @ ws2 @ body)" using m(5) by simp
  then show ?thesis using m(6) by (intro exI[of _ "w @ ws1 @ [58] @ ws2 @ body"]) simp
next
  assume "is_display_block m"
  then obtain w1 ws1 ws2 w2 ws3 where m: "ci_word (cp ''display'') w1" "blank ws1" "blank ws2"
    "ci_word (cp ''block'') w2" "blank ws3" "m = w1 @ ws1 @ [58] @ ws2 @ w2 @ ws3 @ [59]"
    unfolding is_display_block_def by blast
  have "59 \<notin> set w1" using ci_word_chars[OF m(1) word_chars_display] by blast
  moreover have "59 \<notin> set w2" using ci_word_chars[OF m(4) word_chars_block] by blast
  moreover have "59 \<notin> set ws1" "59 \<notin> set ws2" "59 \<notin> set ws3"
    using m(2,3,5) by (auto simp: blank_def)
  ultimately have "59 \<notin> set (w1 @ ws1 @ [58] @ ws2 @ w2 @ ws3)" by simp
  then show ?thesis using m(6) by (intro exI[of _ "w1 @ ws1 @ [58] @ ws2 @ w2 @ ws3"]) simp
qed

lemma is_match_unique:
  assumes "is_match m" "is_match m'" "m @ r = m' @ r'"
  shows "m = m' \<and> r = r'"
proof -
  from is_match_one_semicolon[OF assms(1)] obtain b where b: "m = b @ [59]" "59 \<notin> set b" by blast
  from is_match_one_semicolon[OF assms(2)] obtain b' where b': "m' = b' @ [59]" "59 \<notin> set b'" by blast
  have "takeWhile (\<lambda>c. c \<noteq> 59) (m @ r) = b"
    using b by (auto simp: takeWhile_tail)
  moreover have "takeWhile (\<lambda>c. c \<noteq> 59) (m' @ r') = b'"
    using b' by (auto simp: takeWhile_tail)
  ultimately have "b = b'" using assms(3) by simp
  then show ?thesis using assms(3) b(1) b'(1) by simp
qed

lemma CSS_REMOVE_PATTERN_complete:
  assumes "is_match m"
  shows "CSS_REMOVE_PATTERN (m @ r) = Some r"
proof -
  have "\<exists>r'. CSS_REMOVE_PATTERN (m @ r) = Some r'"
    using assms unfolding is_match_def
  proof
    assume "is_declaration m"
    then obtain p w ws1 ws2 body where m: "p \<in> set properties" "ci_word p w" "blank ws1"
      "blank ws2" "59 \<notin> set body" "m = w @ ws1 @ [58] @ ws2 @ body @ [59]"
      unfolding is_declaration_def by blast
    have "property_declaration p (m @ r) = Some r"
      using property_declaration_complete[OF m(2-5), of r] by (simp add: m(6))
    from alternatives_complete[OF m(1) this] show ?thesis
      by (auto simp: CSS_REMOVE_PATTERN_def)
  next
    assume "is_display_block m"
    then obtain w1 ws1 ws2 w2 ws3 where m: "ci_word (cp ''display'') w1" "blank ws1" "blank ws2"
      "ci_word (cp ''block'') w2" "blank ws3" "m = w1 @ ws1 @ [58] @ ws2 @ w2 @ ws3 @ [59]"
      unfolding is_display_block_def by blast
    have "display_block (m @ r) = Some r"
      using display_block_complete[OF m(1-5), of r] by (simp add: m(6))
    then show ?thesis by (auto simp: CSS_REMOVE_PATTERN_def split: option.splits)
  qed
  then obtain r' where r': "CSS_REMOVE_PATTERN (m @ r) = Some r'" by blast
  from CSS_REMOVE_PATTERN_sound[OF this] obtain m' where "is_match m'" "m @ r = m' @ r'" by blast
  with is_match_unique[OF assms] have "r = r'" by blast
  with r' show ?thesis by simp
qed

lemma CSS_REMOVE_PATTERN_shorter:
  assumes "CSS_REMOVE_PATTERN s = Some r"
  shows "length r < length s"
proof -
  from CSS_REMOVE_PATTERN_sound[OF assms] obtain m where m: "is_match m" "s = m @ r" by blast
  from is_match_one_semicolon[OF m(1)] have "m \<noteq> []" by auto
  then show ?thesis by (simp add: m(2))
qed


subsection \<open>Deleting the matches\<close>

text \<open>A match is never empty, so the scan of \<open>clean_css_content\<close> ends.\<close>

termination clean_css_content
  by (relation "measure length") (auto dest: CSS_REMOVE_PATTERN_shorter)

lemma CSS_REMOVE_PATTERN_None_iff: "CSS_REMOVE_PATTERN s = None \<longleftrightarrow> \<not> match_at s 0"
proof
  assume "CSS_REMOVE_PATTERN s = None"
  then show "\<not> match_at s 0"
    unfolding match_at_def using CSS_REMOVE_PATTERN_complete by fastforce
next
  assume "\<not> match_at s 0"
  show "CSS_REMOVE_PATTERN s = None"
  proof (cases "CSS_REMOVE_PATTERN s")
    case None
    then show ?thesis .
  next
    case (Some r)
    from CSS_REMOVE_PATTERN_sound[OF this] have "match_at s 0"
      by (auto simp: match_at_def)
    with \<open>\<not> match_at s 0\<close> show ?thesis by simp
  qed
qed

lemma match_at_Cons: "match_at (c # s) (Suc i) = match_at s i"
  by (simp add: match_at_def)

lemma match_at_append: "match_at (pre @ s) (length pre + i) = match_at s i"
  by (simp add: match_at_def)

lemma clean_no_match_prefix:
  "(\<forall>i < length pre. \<not> match_at (pre @ s) i) \<Longrightarrow>
     clean_css_content (pre @ s) = pre @ clean_css_content s"
proof (induction pre)
  case Nil
  then show ?case by simp
next
  case (Cons c pre)
  from Cons.prems have "\<not> match_at (c # pre @ s) 0" by auto
  then have none: "CSS_REMOVE_PATTERN (c # pre @ s) = None"
    by (simp add: CSS_REMOVE_PATTERN_None_iff)
  have "\<forall>i < length pre. \<not> match_at (pre @ s) i"
    using Cons.prems match_at_Cons[of c "pre @ s"] by auto
  with Cons.IH none show ?case by simp
qed

lemma clean_no_match: "(\<forall>i. \<not> match_at s i) \<Longrightarrow> clean_css_content s = s"
  using clean_no_match_prefix[of s "[]"] by simp

lemma clean_match: "is_match m \<Longrightarrow> clean_css_content (m @ rest) = clean_css_content rest"
proof -
  assume m: "is_match m"
  then obtain c m' where c: "m = c # m'" using is_match_one_semicolon by (cases m) auto
  show ?thesis using CSS_REMOVE_PATTERN_complete[OF m, of rest] by (simp add: c)
qed

lemma matches_deleted_unique: "matches_deleted s out \<Longrightarrow> out = clean_css_content s"
proof (induction rule: matches_deleted.induct)
  case (no_match s)
  then show ?case by (simp add: clean_no_match)
next
  case (leftmost m pre rest out)
  then show ?case by (simp add: clean_no_match_prefix clean_match)
qed

lemma matches_deleted_clean: "matches_deleted s (clean_css_content s)"
proof (induction s rule: length_induct)
  case (1 s)
  show ?case
  proof (cases "\<forall>i. \<not> match_at s i")
    case True
    then show ?thesis by (simp add: clean_no_match matches_deleted.no_match)
  next
    case False
    define k where "k = (LEAST i. match_at s i)"
    from False have k: "match_at s k" unfolding k_def by (metis LeastI)
    have least: "\<forall>i < k. \<not> match_at s i" unfolding k_def using not_less_Least by blast
    from k obtain m rest where m: "is_match m" "drop k s = m @ rest"
      unfolding match_at_def by blast
    define pre where "pre = take k s"
    have "m \<noteq> []" using is_match_one_semicolon[OF m(1)] by auto
    with m(2) have "k < length s" by (cases "k < length s") auto
    then have len: "length pre = k" by (simp add: pre_def)
    have s: "s = pre @ m @ rest" unfolding pre_def using m(2) by (metis append_take_drop_id)
    have "length rest < length s" using \<open>m \<noteq> []\<close> by (simp add: s)
    with 1 have "matches_deleted rest (clean_css_content rest)" by blast
    moreover have "\<forall>i < length pre. \<not> match_at (pre @ m @ rest) i"
      using least len s by simp
    ultimately have "matches_deleted (pre @ m @ rest) (pre @ clean_css_content rest)"
      using m(1) by (intro matches_deleted.leftmost)
    moreover have "clean_css_content s = pre @ clean_css_content rest"
      using \<open>\<forall>i < length pre. \<not> match_at (pre @ m @ rest) i\<close> m(1)
      by (simp add: s clean_no_match_prefix clean_match)
    ultimately show ?thesis by (simp add: s)
  qed
qed

lemma clean_length: "length (clean_css_content s) \<le> length s"
proof (induction s rule: clean_css_content.induct)
  case 1
  then show ?case by simp
next
  case (2 c s)
  show ?case
  proof (cases "CSS_REMOVE_PATTERN (c # s)")
    case None
    with 2 show ?thesis by simp
  next
    case (Some r)
    with 2 CSS_REMOVE_PATTERN_shorter[OF Some] show ?thesis by simp
  qed
qed

lemma clean_unchanged_iff: "clean_css_content s = s \<longleftrightarrow> (\<forall>i. \<not> match_at s i)"
proof
  assume eq: "clean_css_content s = s"
  show "\<forall>i. \<not> match_at s i"
  proof (rule ccontr)
    assume "\<not> (\<forall>i. \<not> match_at s i)"
    define k where "k = (LEAST i. match_at s i)"
    from \<open>\<not> (\<forall>i. \<not> match_at s i)\<close> have k: "match_at s k" unfolding k_def by (metis LeastI)
    have least: "\<forall>i < k. \<not> match_at s i" unfolding k_def using not_less_Least by blast
    from k obtain m rest where m: "is_match m" "drop k s = m @ rest"
      unfolding match_at_def by blast
    define pre where "pre = take k s"
    have "m \<noteq> []" using is_match_one_semicolon[OF m(1)] by auto
    with m(2) have "k < length s" by (cases "k < length s") auto
    then have len: "length pre = k" by (simp add: pre_def)
    have s: "s = pre @ m @ rest" unfolding pre_def using m(2) by (metis append_take_drop_id)
    have "\<forall>i < length pre. \<not> match_at (pre @ m @ rest) i" using least len s by simp
    then have "clean_css_content s = pre @ clean_css_content rest"
      using m(1) by (simp add: s clean_no_match_prefix clean_match)
    then have "length (clean_css_content s) \<le> length pre + length rest"
      using clean_length[of rest] by simp
    also have "\<dots> < length s" using \<open>m \<noteq> []\<close> by (simp add: s)
    finally show False using eq by simp
  qed
next
  assume "\<forall>i. \<not> match_at s i"
  then show "clean_css_content s = s" by (rule clean_no_match)
qed

text \<open>
  Claim C10. For every input text, \<open>clean_css_content\<close> returns the input with every
  non-overlapping match of the pattern deleted, the matches taken from left to right as
  \<open>re.sub\<close> takes them (a match being a semicolon-terminated declaration of one of the six
  properties, or a \<open>display : block ;\<close> declaration, names compared without regard to case);
  no other text has that relation to the input, so the result is a function of the argument
  alone; and the input comes back unchanged exactly when the pattern matches nowhere in it.
\<close>

theorem clean_css_content_deletes_matches:
  "(matches_deleted s out \<longleftrightarrow> out = clean_css_content s)
   \<and> (clean_css_content s = s \<longleftrightarrow> (\<forall>i. \<not> match_at s i))"
  using matches_deleted_unique matches_deleted_clean clean_unchanged_iff by blast

lemmas pattern_eval = cp_def CSS_REMOVE_PATTERN_def properties_def property_declaration_def
  display_block_def spaces_def not_semicolons_def ci_eq_def is_space_def

theorem clean_css_content_deletes_matches_witness:
  "matches_deleted (cp ''p { Color : red; margin: 0; display :block ; }'') (cp ''p {  margin: 0;  }'')
   \<and> clean_css_content (cp ''p { margin: 0 }'') = cp ''p { margin: 0 }''
   \<and> (\<forall>i. \<not> match_at (cp ''p { margin: 0 }'') i)"
proof -
  have 1: "clean_css_content (cp ''p { Color : red; margin: 0; display :block ; }'')
             = cp ''p {  margin: 0;  }''"
    by (simp add: pattern_eval)
  have 2: "clean_css_content (cp ''p { margin: 0 }'') = cp ''p { margin: 0 }''"
    by (simp add: pattern_eval)
  from 1 clean_css_content_deletes_matches
         [of "cp ''p { Color : red; margin: 0; display :block ; }''" "cp ''p {  margin: 0;  }''"]
  have "matches_deleted (cp ''p { Color : red; margin: 0; display :block ; }'')
          (cp ''p {  margin: 0;  }'')" by simp
  moreover from 2 clean_css_content_deletes_matches [of "cp ''p { margin: 0 }''"]
  have "\<forall>i. \<not> match_at (cp ''p { margin: 0 }'') i" by simp
  ultimately show ?thesis using 2 by simp
qed

text \<open>
  The transform is not idempotent: deleting a match can bring the two sides of it together
  into a new match.
\<close>

lemma clean_css_content_not_idempotent:
  "clean_css_content (cp ''cocolor:a;lor:b;'') = cp ''color:b;''
   \<and> clean_css_content (cp ''color:b;'') = []"
  by (simp add: pattern_eval)

section \<open>Properties of the transaction\<close>

subsection \<open>The exit paths\<close>

text \<open>
  Each step is described by what it returns in each of its cases; \<open>try_body_cases\<close> and
  \<open>transaction_cases\<close> then list the exit paths of the function: no scratch directory could
  be made; the source was rejected (not an archive, or the extraction raised); nothing had to
  be changed; repacking or replacing failed and the temporary archive was removed; it failed
  and the removal raised as well; the original was replaced.
\<close>

lemma temp_name_neq: "temp_name ev p \<noteq> p"
  by (simp add: temp_name_def)

lemma discard_and_fail_cases:
  assumes "discard_and_fail ev tmp w = (out, w')"
  shows "(out = Returned False \<and> file_at w tmp = None \<and> w' = w)
       \<or> (out = Returned False \<and> \<not> remove_raises ev 0 \<and> w' = w\<lparr>file_at := (file_at w)(tmp := None)\<rparr>)
       \<or> (out = Raised \<and> file_at w tmp \<noteq> None \<and> remove_raises ev 0 \<and> w' = w)"
  using assms by (auto simp: discard_and_fail_def os_remove_def split: if_splits)

lemma repack_cases:
  assumes "repack ev tmp t w = (ok, w')"
  shows "(ok \<and> pack_raises ev = NoPackFault \<and> w' = w\<lparr>file_at := (file_at w)(tmp \<mapsto> ZipArchive (pack_entries t))\<rparr>)
       \<or> (\<not> ok \<and> pack_raises ev = OpenRaises \<and> w' = w)
       \<or> (\<not> ok \<and> (\<exists>k. pack_raises ev = WriteRaises k
             \<and> w' = w\<lparr>file_at := (file_at w)(tmp \<mapsto> ZipArchive (take k (pack_entries t)))\<rparr>))"
  using assms by (auto simp: repack_def split: pack_fault.splits)


lemma replace_original_cases:
  assumes "replace_original ev p tmp loc w = (out, loc', w')"
  shows "(out = Returned True \<and> \<not> move_raises ev \<and> file_at w tmp \<noteq> None
            \<and> loc' = loc\<lparr>temp_output_epub_path := None\<rparr>
            \<and> w' = w\<lparr>file_at := (file_at w)(p := file_at w tmp, tmp := None)\<rparr>)
       \<or> ((move_raises ev \<or> file_at w tmp = None) \<and> loc' = loc
            \<and> discard_and_fail ev tmp w = (out, w'))"
  using assms by (auto simp: replace_original_def split: if_splits prod.splits)

lemma try_body_no_scratch:
  assumes "mkdtemp ev = None \<or> (\<exists>d. mkdtemp ev = Some d \<and> tmpdir_at w d \<noteq> None)"
  shows "try_body transform pf ev p w = (Raised, \<lparr>temp_dir = None, temp_output_epub_path = None\<rparr>, w)"
  using assms by (auto simp: try_body_def)

lemma try_body_not_archive:
  assumes "mkdtemp ev = Some d" "tmpdir_at w d = None" "\<forall>es. file_at w p \<noteq> Some (ZipArchive es)"
  shows "try_body transform pf ev p w
           = (Returned False, scratch_loc d, w\<lparr>tmpdir_at := (tmpdir_at w)(d \<mapsto> Dir [] [])\<rparr>)"
proof (cases "file_at w p")
  case None
  with assms show ?thesis by (simp add: try_body_def scratch_loc_def)
next
  case (Some x)
  with assms(3) obtain raw where "x = Blob raw" by (cases x) auto
  with Some assms show ?thesis by (simp add: try_body_def scratch_loc_def)
qed

lemma try_body_extract_fails:
  assumes "mkdtemp ev = Some d" "tmpdir_at w d = None" "file_at w p = Some (ZipArchive es)"
    "extractall (extract_raises_at ev) es (Dir [] []) = (False, t)"
  shows "try_body transform pf ev p w
           = (Returned False, scratch_loc d, w\<lparr>tmpdir_at := (tmpdir_at w)(d \<mapsto> t)\<rparr>)"
  using assms by (simp add: try_body_def scratch_loc_def)

lemma try_body_walked:
  assumes "mkdtemp ev = Some d" "tmpdir_at w d = None" "file_at w p = Some (ZipArchive es)"
    "extractall (extract_raises_at ev) es (Dir [] []) = (True, t)"
    "walk_css transform pf ev [] t init_state = (t', st)"
  shows "try_body transform pf ev p w =
     (let w2 = w\<lparr>tmpdir_at := (tmpdir_at w)(d \<mapsto> t')\<rparr>;
          loc' = (scratch_loc d)\<lparr>temp_output_epub_path := Some (temp_name ev p)\<rparr>
      in if \<not> css_files_found st \<or> \<not> modified st then (Returned True, scratch_loc d, w2)
         else let (packed, w3) = repack ev (temp_name ev p) t' w2
              in if \<not> packed
                 then (let (out, w4) = discard_and_fail ev (temp_name ev p) w3 in (out, loc', w4))
                 else replace_original ev p (temp_name ev p) loc' w3)"
  using assms unfolding init_state_def
  by (simp add: try_body_def scratch_loc_def temp_name_def Let_def split: prod.splits)


lemma try_body_cases
  [consumes 1, case_names no_scratch rejected no_change failed stuck committed]:
  assumes "try_body transform pf ev p w = (out, loc, w1)"
  obtains "out = Raised" "loc = \<lparr>temp_dir = None, temp_output_epub_path = None\<rparr>" "w1 = w"
      "mkdtemp ev = None \<or> (\<exists>d. mkdtemp ev = Some d \<and> tmpdir_at w d \<noteq> None)"
  | d t where "mkdtemp ev = Some d" "tmpdir_at w d = None" "loc = scratch_loc d"
      "out = Returned False" "w1 = w\<lparr>tmpdir_at := (tmpdir_at w)(d \<mapsto> t)\<rparr>"
      "((\<forall>es. file_at w p \<noteq> Some (ZipArchive es)) \<and> t = Dir [] [])
       \<or> (\<exists>es. file_at w p = Some (ZipArchive es)
              \<and> extractall (extract_raises_at ev) es (Dir [] []) = (False, t))"
  | d t st where "mkdtemp ev = Some d" "tmpdir_at w d = None" "loc = scratch_loc d"
      "out = Returned True" "w1 = w\<lparr>tmpdir_at := (tmpdir_at w)(d \<mapsto> t)\<rparr>"
      "walked transform pf ev p w t st" "\<not> css_files_found st \<or> \<not> modified st"
  | d t st where "mkdtemp ev = Some d" "tmpdir_at w d = None"
      "loc = (scratch_loc d)\<lparr>temp_output_epub_path := Some (temp_name ev p)\<rparr>"
      "out = Returned False" "tmpdir_at w1 = (tmpdir_at w)(d \<mapsto> t)"
      "file_at w1 = (file_at w)(temp_name ev p := None)"
      "walked transform pf ev p w t st" "css_files_found st" "modified st"
      "pack_raises ev \<noteq> NoPackFault \<or> move_raises ev"
  | d t st where "mkdtemp ev = Some d" "tmpdir_at w d = None"
      "loc = (scratch_loc d)\<lparr>temp_output_epub_path := Some (temp_name ev p)\<rparr>"
      "out = Raised" "remove_raises ev 0" "tmpdir_at w1 = (tmpdir_at w)(d \<mapsto> t)"
      "file_at w1 (temp_name ev p) \<noteq> None"
      "\<forall>q. q \<noteq> temp_name ev p \<longrightarrow> file_at w1 q = file_at w q"
      "walked transform pf ev p w t st" "css_files_found st" "modified st"
      "pack_raises ev \<noteq> NoPackFault \<or> move_raises ev"
  | d t st where "mkdtemp ev = Some d" "tmpdir_at w d = None" "loc = scratch_loc d"
      "out = Returned True" "\<not> move_raises ev" "pack_raises ev = NoPackFault"
      "tmpdir_at w1 = (tmpdir_at w)(d \<mapsto> t)"
      "file_at w1 = (file_at w)(p \<mapsto> ZipArchive (pack_entries t), temp_name ev p := None)"
      "walked transform pf ev p w t st" "css_files_found st" "modified st"
proof (cases "mkdtemp ev = None \<or> (\<exists>d. mkdtemp ev = Some d \<and> tmpdir_at w d \<noteq> None)")
  case True
  from try_body_no_scratch[OF this, of transform pf p] assms True
  show ?thesis by (intro that(1)) simp_all
next
  case False
  then obtain d where d: "mkdtemp ev = Some d" "tmpdir_at w d = None" by auto
  note rejected = that(2)[OF d] and no_change = that(3)[OF d] and failed = that(4)[OF d]
    and stuck = that(5)[OF d] and committed = that(6)[OF d]
  show ?thesis
  proof (cases "\<exists>es. file_at w p = Some (ZipArchive es)")
    case False
    then have "\<forall>es. file_at w p \<noteq> Some (ZipArchive es)" by simp
    from try_body_not_archive[OF d this, of transform pf] assms this
    show ?thesis by (intro rejected[where t = "Dir [] []"]) simp_all
  next
    case True
    then obtain es where es: "file_at w p = Some (ZipArchive es)" by blast
    obtain extracted t where ex: "extractall (extract_raises_at ev) es (Dir [] []) = (extracted, t)"
      by (cases "extractall (extract_raises_at ev) es (Dir [] [])")
    show ?thesis
    proof (cases extracted)
      case False
      with ex try_body_extract_fails[OF d es, of t transform pf] assms es
      show ?thesis by (intro rejected[where t = t]) simp_all
    next
      case True
      obtain t' st where wk: "walk_css transform pf ev [] t init_state = (t', st)"
        by (cases "walk_css transform pf ev [] t init_state")
      from ex True have ex': "extractall (extract_raises_at ev) es (Dir [] []) = (True, t)" by simp
      have walked: "walked transform pf ev p w t' st"
        unfolding walked_def using es ex' wk by blast
      note body = try_body_walked[OF d es ex' wk]
      define w2 where "w2 = w\<lparr>tmpdir_at := (tmpdir_at w)(d \<mapsto> t')\<rparr>"
      define tmp where "tmp = temp_name ev p"
      define loc' where "loc' = (scratch_loc d)\<lparr>temp_output_epub_path := Some tmp\<rparr>"
      show ?thesis
      proof (cases "\<not> css_files_found st \<or> \<not> modified st")
        case True
        with body assms walked
        show ?thesis by (intro no_change[where t = t' and st = st]) (simp_all add: Let_def)
      next
        case False
        then have flags: "css_files_found st" "modified st" by simp_all
        obtain packed w3 where rp: "repack ev tmp t' w2 = (packed, w3)"
          by (cases "repack ev tmp t' w2")
        have w3_dirs: "tmpdir_at w3 = (tmpdir_at w)(d \<mapsto> t')"
          using repack_cases[OF rp] by (auto simp: w2_def)
        have w3_other: "\<forall>q. q \<noteq> tmp \<longrightarrow> file_at w3 q = file_at w q"
          using repack_cases[OF rp] by (auto simp: w2_def)
        have discard: thesis if df: "discard_and_fail ev tmp w3 = (out, w1)" and l: "loc = loc'"
          and why: "pack_raises ev \<noteq> NoPackFault \<or> move_raises ev"
        proof -
          from discard_and_fail_cases[OF df]
          consider "out = Returned False" "file_at w3 tmp = None" "w1 = w3"
            | "out = Returned False" "w1 = w3\<lparr>file_at := (file_at w3)(tmp := None)\<rparr>"
            | "out = Raised" "file_at w3 tmp \<noteq> None" "remove_raises ev 0" "w1 = w3"
            by auto
          then show thesis
          proof cases
            case 1
            have "file_at w1 = (file_at w)(tmp := None)"
              using 1 w3_other by (auto simp: fun_eq_iff)
            with 1 w3_dirs l walked flags why show ?thesis
              by (intro failed[where t = t' and st = st]) (simp_all add: loc'_def tmp_def)
          next
            case 2
            have "file_at w1 = (file_at w)(tmp := None)"
              using 2 w3_other by (auto simp: fun_eq_iff)
            with 2 w3_dirs l walked flags why show ?thesis
              by (intro failed[where t = t' and st = st]) (simp_all add: loc'_def tmp_def)
          next
            case 3
            with w3_dirs w3_other l walked flags why show ?thesis
              by (intro stuck[where t = t' and st = st]) (simp_all add: loc'_def tmp_def)
          qed
        qed
        show ?thesis
        proof (cases packed)
          case False
          with body \<open>\<not> (\<not> css_files_found st \<or> \<not> modified st)\<close> rp assms
          have "discard_and_fail ev tmp w3 = (out, w1) \<and> loc = loc'"
            by (auto simp: Let_def w2_def[symmetric] tmp_def[symmetric] loc'_def[symmetric]
                split: prod.splits)
          moreover from False repack_cases[OF rp] have "pack_raises ev \<noteq> NoPackFault" by auto
          ultimately show ?thesis using discard by blast
        next
          case True
          with body \<open>\<not> (\<not> css_files_found st \<or> \<not> modified st)\<close> rp assms
          have ro: "replace_original ev p tmp loc' w3 = (out, loc, w1)"
            by (auto simp: Let_def w2_def[symmetric] tmp_def[symmetric] loc'_def[symmetric])
          from True repack_cases[OF rp]
          have w3: "pack_raises ev = NoPackFault"
            "w3 = w2\<lparr>file_at := (file_at w2)(tmp \<mapsto> ZipArchive (pack_entries t'))\<rparr>" by auto
          from replace_original_cases[OF ro]
          show ?thesis
          proof
            assume c: "out = Returned True \<and> \<not> move_raises ev \<and> file_at w3 tmp \<noteq> None
              \<and> loc = loc'\<lparr>temp_output_epub_path := None\<rparr>
              \<and> w1 = w3\<lparr>file_at := (file_at w3)(p := file_at w3 tmp, tmp := None)\<rparr>"
            have "file_at w1 = (file_at w)(p \<mapsto> ZipArchive (pack_entries t'), tmp := None)"
              using c w3(2) by (auto simp: fun_eq_iff w2_def)
            moreover have "loc = scratch_loc d" using c by (simp add: loc'_def scratch_loc_def)
            moreover have "tmpdir_at w1 = (tmpdir_at w)(d \<mapsto> t')" using c w3_dirs by simp
            ultimately show ?thesis
              using c w3(1) walked flags
              by (intro committed[where t = t' and st = st]) (simp_all add: tmp_def)
          next
            assume a: "(move_raises ev \<or> file_at w3 tmp = None) \<and> loc = loc'
              \<and> discard_and_fail ev tmp w3 = (out, w1)"
            have "file_at w3 tmp \<noteq> None" using w3(2) by simp
            with a have "move_raises ev" by simp
            with a show ?thesis using discard by blast
          qed
        qed
      qed
    qed
  qed
qed

lemma except_handler_dirs [simp]: "tmpdir_at (except_handler ev loc w) = tmpdir_at w"
  by (simp add: except_handler_def os_remove_def split: option.splits)

lemma except_handler_files:
  "temp_output_epub_path loc = Some tmp \<Longrightarrow>
     file_at (except_handler ev loc w)
       = (if remove_raises ev 1 then file_at w else (file_at w)(tmp := None))"
  by (auto simp: except_handler_def os_remove_def fun_eq_iff)

lemma except_handler_none [simp]:
  "temp_output_epub_path loc = None \<Longrightarrow> except_handler ev loc w = w"
  by (simp add: except_handler_def)

lemma finally_clause_files_none:
  "temp_output_epub_path loc = None \<Longrightarrow> file_at (finally_clause ev loc w) = file_at w"
  by (simp add: finally_clause_def Let_def split: option.splits)

lemma finally_clause_files:
  "temp_output_epub_path loc = Some tmp \<Longrightarrow>
     file_at (finally_clause ev loc w)
       = (if remove_raises ev 2 then file_at w else (file_at w)(tmp := None))"
  by (auto simp: finally_clause_def os_remove_def Let_def fun_eq_iff split: option.splits)

lemma finally_clause_no_scratch:
  "temp_dir loc = None \<Longrightarrow> tmpdir_at (finally_clause ev loc w) = tmpdir_at w"
  by (simp add: finally_clause_def os_remove_def Let_def split: option.splits)

lemma finally_clause_scratch:
  assumes "temp_dir loc = Some d" "tmpdir_at w1 = (tmpdir_at w)(d \<mapsto> t)" "tmpdir_at w d = None"
  shows "tmpdir_at (finally_clause ev loc w1)
           = (if rmtree_raises ev then (tmpdir_at w)(d \<mapsto> t) else tmpdir_at w)"
proof -
  have "(tmpdir_at w)(d := None) = tmpdir_at w" using assms(3) by (auto simp: fun_eq_iff)
  then show ?thesis
    using assms(1,2) by (simp add: finally_clause_def os_remove_def Let_def split: option.splits)
qed

lemma transaction_cases
  [consumes 1, case_names no_scratch rejected no_change failed stuck committed]:
  assumes "transaction transform pf ev p w = (ok, w')"
  obtains "\<not> ok" "w' = w" "mkdtemp ev = None \<or> (\<exists>d. mkdtemp ev = Some d \<and> tmpdir_at w d \<noteq> None)"
  | d t where "mkdtemp ev = Some d" "tmpdir_at w d = None" "\<not> ok" "file_at w' = file_at w"
      "tmpdir_at w' = (if rmtree_raises ev then (tmpdir_at w)(d \<mapsto> t) else tmpdir_at w)"
      "((\<forall>es. file_at w p \<noteq> Some (ZipArchive es)) \<and> t = Dir [] [])
       \<or> (\<exists>es. file_at w p = Some (ZipArchive es)
              \<and> extractall (extract_raises_at ev) es (Dir [] []) = (False, t))"
  | d t st where "mkdtemp ev = Some d" "tmpdir_at w d = None" "ok" "file_at w' = file_at w"
      "tmpdir_at w' = (if rmtree_raises ev then (tmpdir_at w)(d \<mapsto> t) else tmpdir_at w)"
      "walked transform pf ev p w t st" "\<not> css_files_found st \<or> \<not> modified st"
  | d t st where "mkdtemp ev = Some d" "tmpdir_at w d = None" "\<not> ok"
      "file_at w' = (file_at w)(temp_name ev p := None)"
      "tmpdir_at w' = (if rmtree_raises ev then (tmpdir_at w)(d \<mapsto> t) else tmpdir_at w)"
      "walked transform pf ev p w t st" "css_files_found st" "modified st"
      "pack_raises ev \<noteq> NoPackFault \<or> move_raises ev"
  | d t st where "mkdtemp ev = Some d" "tmpdir_at w d = None" "\<not> ok" "remove_raises ev 0"
      "\<forall>q. q \<noteq> temp_name ev p \<longrightarrow> file_at w' q = file_at w q"
      "file_at w' (temp_name ev p) \<noteq> None \<longleftrightarrow> remove_raises ev 1 \<and> remove_raises ev 2"
      "tmpdir_at w' = (if rmtree_raises ev then (tmpdir_at w)(d \<mapsto> t) else tmpdir_at w)"
      "walked transform pf ev p w t st" "css_files_found st" "modified st"
      "pack_raises ev \<noteq> NoPackFault \<or> move_raises ev"
  | d t st where "mkdtemp ev = Some d" "tmpdir_at w d = None" "ok" "\<not> move_raises ev"
      "pack_raises ev = NoPackFault"
      "file_at w' = (file_at w)(p \<mapsto> ZipArchive (pack_entries t), temp_name ev p := None)"
      "tmpdir_at w' = (if rmtree_raises ev then (tmpdir_at w)(d \<mapsto> t) else tmpdir_at w)"
      "walked transform pf ev p w t st" "css_files_found st" "modified st"
proof -
  obtain out loc w1 where tb: "try_body transform pf ev p w = (out, loc, w1)"
    by (cases "try_body transform pf ev p w")
  from tb show ?thesis
  proof (cases rule: try_body_cases)
    case no_scratch
    with tb assms have "\<not> ok" "w' = w"
      by (simp_all add: transaction_def finally_clause_def except_handler_def)
    then show ?thesis using no_scratch(4) by (rule that(1))
  next
    case (rejected d t)
    have loc: "temp_dir loc = Some d" "temp_output_epub_path loc = None"
      using rejected(3) by (simp_all add: scratch_loc_def)
    have w': "w' = finally_clause ev loc w1" "\<not> ok"
      using tb assms rejected(4) by (simp_all add: transaction_def)
    have "file_at w' = file_at w"
      using rejected(5) by (simp add: w' finally_clause_files_none[OF loc(2)])
    moreover have "tmpdir_at w' = (if rmtree_raises ev then (tmpdir_at w)(d \<mapsto> t) else tmpdir_at w)"
      unfolding w' using rejected(5) by (intro finally_clause_scratch[OF loc(1) _ rejected(2)]) simp
    ultimately show ?thesis
      using rejected(1,2,6) w'(2) by (intro that(2)[where d = d and t = t])
  next
    case (no_change d t st)
    have loc: "temp_dir loc = Some d" "temp_output_epub_path loc = None"
      using no_change(3) by (simp_all add: scratch_loc_def)
    have w': "w' = finally_clause ev loc w1" "ok"
      using tb assms no_change(4) by (simp_all add: transaction_def)
    have "file_at w' = file_at w"
      using no_change(5) by (simp add: w' finally_clause_files_none[OF loc(2)])
    moreover have "tmpdir_at w' = (if rmtree_raises ev then (tmpdir_at w)(d \<mapsto> t) else tmpdir_at w)"
      unfolding w' using no_change(5) by (intro finally_clause_scratch[OF loc(1) _ no_change(2)]) simp
    ultimately show ?thesis
      using no_change(1,2,6,7) w'(2) by (intro that(3)[where d = d and t = t and st = st])
  next
    case (failed d t st)
    have loc: "temp_dir loc = Some d" "temp_output_epub_path loc = Some (temp_name ev p)"
      using failed(3) by (simp_all add: scratch_loc_def)
    have w': "w' = finally_clause ev loc w1" "\<not> ok"
      using tb assms failed(4) by (simp_all add: transaction_def)
    have "file_at w' = (file_at w)(temp_name ev p := None)"
      using failed(6) by (simp add: w' finally_clause_files[OF loc(2)])
    moreover have "tmpdir_at w' = (if rmtree_raises ev then (tmpdir_at w)(d \<mapsto> t) else tmpdir_at w)"
      unfolding w' by (rule finally_clause_scratch[OF loc(1) failed(5) failed(2)])
    ultimately show ?thesis
      using failed(1,2,7-10) w'(2) by (intro that(4)[where d = d and t = t and st = st])
  next
    case (stuck d t st)
    have loc: "temp_dir loc = Some d" "temp_output_epub_path loc = Some (temp_name ev p)"
      using stuck(3) by (simp_all add: scratch_loc_def)
    have w': "w' = finally_clause ev loc (except_handler ev loc w1)" "\<not> ok"
      using tb assms stuck(4) by (simp_all add: transaction_def)
    have files: "file_at w' = (if remove_raises ev 1 \<and> remove_raises ev 2 then file_at w1
                   else (file_at w1)(temp_name ev p := None))"
      by (simp add: w' finally_clause_files[OF loc(2)] except_handler_files[OF loc(2)])
    have "\<forall>q. q \<noteq> temp_name ev p \<longrightarrow> file_at w' q = file_at w q"
      using stuck(8) by (simp add: files)
    moreover have "file_at w' (temp_name ev p) \<noteq> None \<longleftrightarrow> remove_raises ev 1 \<and> remove_raises ev 2"
      using stuck(7) by (simp add: files)
    moreover have "tmpdir_at w' = (if rmtree_raises ev then (tmpdir_at w)(d \<mapsto> t) else tmpdir_at w)"
      unfolding w' by (rule finally_clause_scratch[OF loc(1) _ stuck(2)]) (simp add: stuck(6))
    ultimately show ?thesis
      using stuck(1,2,5,9-12) w'(2) by (intro that(5)[where d = d and t = t and st = st])
  next
    case (committed d t st)
    have loc: "temp_dir loc = Some d" "temp_output_epub_path loc = None"
      using committed(3) by (simp_all add: scratch_loc_def)
    have w': "w' = finally_clause ev loc w1" "ok"
      using tb assms committed(4) by (simp_all add: transaction_def)
    have "file_at w' = (file_at w)(p \<mapsto> ZipArchive (pack_entries t), temp_name ev p := None)"
      using committed(8) by (simp add: w' finally_clause_files_none[OF loc(2)])
    moreover have "tmpdir_at w' = (if rmtree_raises ev then (tmpdir_at w)(d \<mapsto> t) else tmpdir_at w)"
      unfolding w' by (rule finally_clause_scratch[OF loc(1) committed(7) committed(2)])
    ultimately show ?thesis
      using committed(1,2,5,6,9-11) w'(2) by (intro that(6)[where d = d and t = t and st = st])
  qed
qed

subsection \<open>The example book, step by step\<close>

lemma book_extracted: "extractall None book (Dir [] []) = (True, book_tree)"
  by (simp add: book_def book_tree_def subdir_def)

lemma cleaned_tree_packed: "pack_entries cleaned_tree = cleaned_book"
  by (simp add: pack_entries_def mimetype_first_def cleaned_tree_def cleaned_book_def)

lemma book_walked_any:
  assumes "read_raises ev = (\<lambda>_. False)" "write_raises ev = (\<lambda>_. None)"
  shows "walk_css clean_css_content ascii ev [] book_tree init_state
     = (cleaned_tree, \<lparr>css_files_found = True, modified = True\<rparr>)"
  using assms
  by (simp add: book_tree_def cleaned_tree_def init_state_def ascii_def css_file_def
      endswith_def lower_def Let_def pattern_eval char_of_def bit_0)

lemma book_try_body:
  assumes "mkdtemp ev = Some d" "extract_raises_at ev = None"
    "read_raises ev = (\<lambda>_. False)" "write_raises ev = (\<lambda>_. None)"
  shows "try_body clean_css_content ascii ev ''book.epub'' shelf =
     (let w2 = shelf\<lparr>tmpdir_at := [d \<mapsto> cleaned_tree]\<rparr>;
          loc' = (scratch_loc d)\<lparr>temp_output_epub_path := Some (temp_name ev ''book.epub'')\<rparr>;
          (packed, w3) = repack ev (temp_name ev ''book.epub'') cleaned_tree w2
      in if \<not> packed
         then (let (out, w4) = discard_and_fail ev (temp_name ev ''book.epub'') w3 in (out, loc', w4))
         else replace_original ev ''book.epub'' (temp_name ev ''book.epub'') loc' w3)"
proof -
  have 1: "tmpdir_at shelf d = None" "file_at shelf ''book.epub'' = Some (ZipArchive book)"
    by (simp_all add: shelf_def)
  have 2: "extractall (extract_raises_at ev) book (Dir [] []) = (True, book_tree)"
    using book_extracted assms(2) by simp
  show ?thesis
    using try_body_walked[OF assms(1) 1 2 book_walked_any[OF assms(3,4)]]
    by (simp add: shelf_def Let_def)
qed

lemma book_reaches_repacking:
  assumes "extract_raises_at ev = None" "read_raises ev = (\<lambda>_. False)"
    "write_raises ev = (\<lambda>_. None)"
  shows "walked clean_css_content ascii ev ''book.epub'' shelf cleaned_tree
           \<lparr>css_files_found = True, modified = True\<rparr>"
  unfolding walked_def
  using book_extracted book_walked_any[OF assms(2,3)] assms(1)
  by (intro exI[of _ book] exI[of _ book_tree]) (simp add: shelf_def)

lemma jammed_run:
  "process_epub_inplace ascii jammed ''book.epub'' shelf
     = (False, \<lparr>file_at = [''book.epub'' \<mapsto> ZipArchive book,
                     ''book.epub.0f1e.tmpzip'' \<mapsto> ZipArchive (take 1 cleaned_book)],
                tmpdir_at = [''/tmp/tmpk3'' \<mapsto> cleaned_tree]\<rparr>)"
proof -
  have "try_body clean_css_content ascii jammed ''book.epub'' shelf
          = (Raised,
             (scratch_loc ''/tmp/tmpk3'')\<lparr>temp_output_epub_path := Some ''book.epub.0f1e.tmpzip''\<rparr>,
             \<lparr>file_at = [''book.epub'' \<mapsto> ZipArchive book,
                         ''book.epub.0f1e.tmpzip'' \<mapsto> ZipArchive (take 1 cleaned_book)],
               tmpdir_at = [''/tmp/tmpk3'' \<mapsto> cleaned_tree]\<rparr>)"
    using book_try_body[of jammed "''/tmp/tmpk3''"] cleaned_tree_packed
    by (simp add: jammed_def quiet_def shelf_def temp_name_def repack_def
        discard_and_fail_def os_remove_def fun_eq_iff)
  then show ?thesis
    by (simp add: process_epub_inplace_def transaction_def finally_clause_def except_handler_def
        scratch_loc_def jammed_def quiet_def os_remove_def shelf_def)
qed

lemma walked_unique:
  assumes "walked transform pf ev p w t st" "walked transform pf ev p w t' st'"
  shows "t' = t \<and> st' = st"
  using assms unfolding walked_def by auto

lemma walked_not_rejected:
  assumes "walked transform pf ev p w t st"
  shows "\<not> (((\<forall>es. file_at w p \<noteq> Some (ZipArchive es)) \<and> t' = Dir [] [])
       \<or> (\<exists>es. file_at w p = Some (ZipArchive es)
              \<and> extractall (extract_raises_at ev) es (Dir [] []) = (False, t')))"
  using assms unfolding walked_def by auto

section \<open>The claims about the transaction\<close>










text \<open>
  Claim C6, as stated: when the repacking fails the partly written temporary archive is
  deleted and no partial output remains. The deletion can raise as well: in the handler of
  step 5 it is not guarded, in the outer handler and in the \<open>finally\<close> clause the \<open>OSError\<close>
  is swallowed. In the environment \<open>jammed\<close> the partial archive, with the one member written
  before the failure, is still on the disk when the call has returned \<open>False\<close>.
\<close>

theorem partial_archive_left_when_removal_raises:
  "file_at shelf ''book.epub.0f1e.tmpzip'' = None
   \<and> \<not> fst (process_epub_inplace ascii jammed ''book.epub'' shelf)
   \<and> file_at (snd (process_epub_inplace ascii jammed ''book.epub'' shelf)) ''book.epub.0f1e.tmpzip''
        = Some (ZipArchive [FileEntry [''mimetype''] ''application/epub+zip'' ZIP_STORED])"
  by (simp add: jammed_run) (simp add: shelf_def cleaned_book_def)

text \<open>
  Claim C6, amended. In a call that reaches step 5 and whose repacking raises (on opening the
  output or while writing a member), the result is \<open>False\<close>, the source and every other file
  but the temporary archive are untouched, and the temporary archive is not on the disk after
  the call unless \<open>os.remove\<close> raised at all three places where the code calls it.
\<close>

theorem failed_repack_discarded:
  assumes "process_epub_inplace pf ev p w = (ok, w')"
    and "mkdtemp ev = Some d" and "tmpdir_at w d = None"
    and "walked clean_css_content pf ev p w t st"
    and "css_files_found st" and "modified st"
    and "pack_raises ev \<noteq> NoPackFault"
  shows "\<not> ok \<and> file_at w' p = file_at w p
       \<and> (\<forall>q. q \<noteq> temp_name ev p \<longrightarrow> file_at w' q = file_at w q)
       \<and> (\<not> (remove_raises ev 0 \<and> remove_raises ev 1 \<and> remove_raises ev 2)
            \<longrightarrow> file_at w' (temp_name ev p) = None)"
  using assms(1)[unfolded process_epub_inplace_def]
proof (cases rule: transaction_cases)
  case no_scratch
  with assms(2,3) show ?thesis by auto
next
  case (rejected d' t')
  with walked_not_rejected[OF assms(4), of t'] show ?thesis by simp
next
  case (no_change d' t' st')
  with walked_unique[OF assms(4) no_change(6)] assms(5,6) show ?thesis by simp
next
  case (failed d' t' st')
  then show ?thesis using temp_name_neq[of ev p] by simp
next
  case (stuck d' t' st')
  then show ?thesis using temp_name_neq[of ev p] by auto
next
  case (committed d' t' st')
  with assms(7) show ?thesis by simp
qed

theorem failed_repack_discarded_witness:
  "\<not> fst (process_epub_inplace ascii pack_fails ''book.epub'' shelf)
   \<and> file_at (snd (process_epub_inplace ascii pack_fails ''book.epub'' shelf)) ''book.epub''
       = Some (ZipArchive book)
   \<and> file_at (snd (process_epub_inplace ascii pack_fails ''book.epub'' shelf))
       ''book.epub.0f1e.tmpzip'' = None"
proof -
  obtain ok w' where run: "process_epub_inplace ascii pack_fails ''book.epub'' shelf = (ok, w')"
    by (cases "process_epub_inplace ascii pack_fails ''book.epub'' shelf")
  have reach: "walked clean_css_content ascii pack_fails ''book.epub'' shelf cleaned_tree
                 \<lparr>css_files_found = True, modified = True\<rparr>"
    by (rule book_reaches_repacking) (simp_all add: pack_fails_def quiet_def)
  have env: "mkdtemp pack_fails = Some ''/tmp/tmpk3''" "tmpdir_at shelf ''/tmp/tmpk3'' = None"
    "pack_raises pack_fails \<noteq> NoPackFault"
    "\<not> (remove_raises pack_fails 0 \<and> remove_raises pack_fails 1 \<and> remove_raises pack_fails 2)"
    by (simp_all add: pack_fails_def quiet_def shelf_def)
  from failed_repack_discarded[OF run env(1,2) reach _ _ env(3)] env(4)
  have "\<not> ok" "file_at w' ''book.epub'' = file_at shelf ''book.epub''"
    "file_at w' (temp_name pack_fails ''book.epub'') = None"
    by simp_all
  then have "\<not> ok" "file_at w' ''book.epub'' = Some (ZipArchive book)"
    "file_at w' ''book.epub.0f1e.tmpzip'' = None"
    by (simp_all add: shelf_def temp_name_def pack_fails_def quiet_def)
  then show ?thesis by (simp add: run)
qed

end
